theory Spec2Isabelle
  imports Complex_Main "HOL-Library.Word" "HOL-Library.Log_Nat"
begin

section \<open>Go's machine numbers\<close>

text \<open>
  The package computes with Go's \<^verbatim>\<open>int\<close>, which is a 64-bit two's complement
  integer on the platforms Go is usually built for, and with \<^verbatim>\<open>float64\<close>, the IEEE 754
  binary64 format. Both are modelled with their width: \<^verbatim>\<open>int\<close> as a 64-bit word read
  through \<open>sint\<close>, and \<^verbatim>\<open>float64\<close> as the rational numbers that have a 53-bit
  significand, together with the two infinities and NaN.
\<close>

type_synonym go_int = "64 word"

datatype float64 = Finite rat | PosInf | NegInf | NaN

text \<open>\<open>pow2 e\<close> is \<open>2\<close> to the power \<open>e\<close> for an integer exponent of either sign.\<close>

definition pow2 :: "int \<Rightarrow> rat" where
  "pow2 e = (if 0 \<le> e then 2 ^ nat e else 1 / 2 ^ nat (- e))"

text \<open>
  \<open>expo x\<close> is the binary exponent of a positive rational \<open>x\<close>, the integer \<open>e\<close> with
  \<open>2 ^ e \<le> x < 2 ^ (e + 1)\<close>.
\<close>

definition expo :: "rat \<Rightarrow> int" where
  "expo x = (if 1 \<le> x then bitlen \<lfloor>x\<rfloor> - 1 else - bitlen (\<lceil>1 / x\<rceil> - 1))"

text \<open>Rounding to the nearest integer, a tie going to the even neighbour.\<close>

definition round_half_even :: "rat \<Rightarrow> int" where
  "round_half_even m =
     (let f = \<lfloor>m\<rfloor>; d = m - of_int f
      in if d < 1 / 2 then f
         else if 1 / 2 < d then f + 1
         else if even f then f else f + 1)"

text \<open>
  \<open>round53 x\<close> is the binary64 number nearest to \<open>x\<close> (ties to even): \<open>x\<close> is scaled so
  that its significand lies in \<open>[2 ^ 52, 2 ^ 53)\<close>, rounded to an integer and scaled back.
  The exponent is not limited: every number rounded below is an \<^verbatim>\<open>int\<close> or the quotient of
  two converted \<^verbatim>\<open>int\<close>s, whose magnitude is \<open>0\<close> or lies between \<open>2 ^ - 63\<close> and \<open>2 ^ 63\<close>,
  far inside the range of normal binary64 numbers.
\<close>

definition round53 :: "rat \<Rightarrow> rat" where
  "round53 x =
     (if x = 0 then 0
      else let u = pow2 (expo \<bar>x\<bar> - 52)
           in sgn x * of_int (round_half_even (\<bar>x\<bar> / u)) * u)"

text \<open>The conversion \<^verbatim>\<open>float64(i)\<close> of an \<^verbatim>\<open>int\<close>.\<close>

definition float64_of_int :: "go_int \<Rightarrow> float64" where
  "float64_of_int i = Finite (round53 (of_int (sint i)))"

text \<open>
  The division \<^verbatim>\<open>a / b\<close> of two \<^verbatim>\<open>float64\<close> values. A finite number divided by zero is an
  infinity, and \<open>0 / 0\<close> is NaN; Go does not panic. The sign of a zero is not represented:
  every divisor below is a converted \<^verbatim>\<open>int\<close>, whose zero is positive.
\<close>

definition float64_div :: "float64 \<Rightarrow> float64 \<Rightarrow> float64" where
  "float64_div x y =
     (case x of
        Finite a \<Rightarrow>
          (case y of
             Finite b \<Rightarrow>
               (if b = 0 then (if a = 0 then NaN else if 0 < a then PosInf else NegInf)
                else Finite (round53 (a / b)))
           | NaN \<Rightarrow> NaN
           | _ \<Rightarrow> Finite 0)
      | PosInf \<Rightarrow> (case y of Finite b \<Rightarrow> (if 0 \<le> b then PosInf else NegInf) | _ \<Rightarrow> NaN)
      | NegInf \<Rightarrow> (case y of Finite b \<Rightarrow> (if 0 \<le> b then NegInf else PosInf) | _ \<Rightarrow> NaN)
      | NaN \<Rightarrow> NaN)"

text \<open>\<^verbatim>\<open>math.Ceil\<close>: exact on finite numbers, the identity on infinities and NaN.\<close>

fun Ceil :: "float64 \<Rightarrow> float64" where
  "Ceil (Finite x) = Finite (of_int \<lceil>x\<rceil>)"
| "Ceil f = f"

text \<open>
  The conversion \<^verbatim>\<open>int(f)\<close> of a \<^verbatim>\<open>float64\<close> truncates towards zero. Where the value does
  not fit an \<^verbatim>\<open>int\<close> the language leaves the result to the implementation; the model
  takes the amd64 result, the smallest \<^verbatim>\<open>int\<close>.
\<close>

definition min_int :: go_int where
  "min_int = word_of_int (- (2 ^ 63))"

definition trunc :: "rat \<Rightarrow> int" where
  "trunc x = (if 0 \<le> x then \<lfloor>x\<rfloor> else \<lceil>x\<rceil>)"

fun int_of_float64 :: "float64 \<Rightarrow> go_int" where
  "int_of_float64 (Finite x) =
     (if - (2 ^ 63) \<le> trunc x \<and> trunc x < 2 ^ 63 then word_of_int (trunc x) else min_int)"
| "int_of_float64 f = min_int"

section \<open>The paginator\<close>

record Paginator =
  itemsPerPage :: go_int
  numberOfItems :: go_int
  currentPage :: go_int

text \<open>The accessors \<^verbatim>\<open>CurrentPage\<close>, \<^verbatim>\<open>NumberOfItems\<close> and \<^verbatim>\<open>ItemsPerPage\<close> return the fields.\<close>

definition CurrentPage :: "Paginator \<Rightarrow> go_int" where
  "CurrentPage p = currentPage p"

definition NumberOfItems :: "Paginator \<Rightarrow> go_int" where
  "NumberOfItems p = numberOfItems p"

definition ItemsPerPage :: "Paginator \<Rightarrow> go_int" where
  "ItemsPerPage p = itemsPerPage p"

text \<open>
  \<^verbatim>\<open>int(math.Ceil(float64(numberOfItems) / float64(itemsPerPage)))\<close>, the expression
  that both \<^verbatim>\<open>New\<close> and \<^verbatim>\<open>NumberOfPages\<close> evaluate.
\<close>

definition pages_needed :: "go_int \<Rightarrow> go_int \<Rightarrow> go_int" where
  "pages_needed items perPage =
     int_of_float64 (Ceil (float64_div (float64_of_int items) (float64_of_int perPage)))"

definition New :: "go_int \<Rightarrow> go_int \<Rightarrow> go_int \<Rightarrow> Paginator" where
  "New numberOfItems' itemsPerPage' currentPage' =
     (let currentPage1 = (if currentPage' = 0 then 1 else currentPage');
          n = pages_needed numberOfItems' itemsPerPage';
          currentPage2 = (if n <s currentPage1 then n else currentPage1)
      in \<lparr>itemsPerPage = itemsPerPage', numberOfItems = numberOfItems',
          currentPage = currentPage2\<rparr>)"

definition Offset :: "Paginator \<Rightarrow> go_int" where
  "Offset p = (CurrentPage p - 1) * ItemsPerPage p"

definition NumberOfPages :: "Paginator \<Rightarrow> go_int" where
  "NumberOfPages p = pages_needed (NumberOfItems p) (ItemsPerPage p)"

definition PreviousPage :: "Paginator \<Rightarrow> go_int" where
  "PreviousPage p = (if CurrentPage p \<le>s 1 then 1 else CurrentPage p - 1)"

definition NextPage :: "Paginator \<Rightarrow> go_int" where
  "NextPage p =
     (if NumberOfPages p \<le>s CurrentPage p then NumberOfPages p else CurrentPage p + 1)"

definition IsCurrentPage :: "Paginator \<Rightarrow> go_int \<Rightarrow> bool" where
  "IsCurrentPage p page = (CurrentPage p = page)"

definition Show :: "Paginator \<Rightarrow> bool" where
  "Show p = (1 <s NumberOfPages p)"

text \<open>
  \<^verbatim>\<open>Pages\<close> allocates with \<^verbatim>\<open>make([]int, 0, p.NumberOfPages())\<close>. The runtime's
  \<^verbatim>\<open>makeslice\<close> panics with \<^verbatim>\<open>makeslice: cap out of range\<close> when the capacity is negative and
  when its elements, of 8 bytes each, come to more than \<^verbatim>\<open>maxAlloc\<close>, which is \<open>2 ^ 48\<close> bytes
  on linux/amd64: a capacity above \<open>2 ^ 45\<close>. Otherwise it takes the memory from the
  allocator, and the program ends with the fatal error \<^verbatim>\<open>out of memory\<close>, which is not a
  panic, when the allocator cannot obtain it. How many bytes the allocator can obtain is
  the parameter \<open>available\<close>.
\<close>

datatype panic = Panic string

datatype fault = Runtime_panic panic | Out_of_memory

definition makeslice :: "int \<Rightarrow> int \<Rightarrow> fault option" where
  "makeslice available cap =
     (if cap < 0 \<or> 2 ^ 48 < 8 * cap
        then Some (Runtime_panic (Panic ''makeslice: cap out of range''))
      else if available < 8 * cap then Some Out_of_memory
      else None)"

text \<open>
  Then \<^verbatim>\<open>Pages\<close> appends \<open>i\<close> for \<open>i = 1, 2, \<dots>\<close> while \<^verbatim>\<open>i <= p.NumberOfPages()\<close>; within the
  capacity \<^verbatim>\<open>append\<close> allocates nothing. The counter is an \<^verbatim>\<open>int\<close> and wraps, so the loop
  is not known to end for every bound: it is a partial function, \<open>None\<close> standing for a
  loop that runs forever.
\<close>

partial_function (option) Pages_loop :: "Paginator \<Rightarrow> go_int \<Rightarrow> go_int list \<Rightarrow> go_int list option" where
  "Pages_loop p i s =
     (if i \<le>s NumberOfPages p then Pages_loop p (i + 1) (s @ [i]) else Some s)"

declare Pages_loop.simps [code]

definition Pages :: "int \<Rightarrow> Paginator \<Rightarrow> (fault + go_int list) option" where
  "Pages available p =
     (case makeslice available (sint (NumberOfPages p)) of
        Some f \<Rightarrow> Some (Inl f)
      | None \<Rightarrow> map_option Inr (Pages_loop p 1 []))"

subsection \<open>The page stream\<close>

text \<open>
  \<^verbatim>\<open>PagesStream\<close> makes an unbuffered channel and starts a goroutine that sends
  \<open>1, 2, \<dots>\<close> on it while \<^verbatim>\<open>i <= p.NumberOfPages()\<close> and then closes it. A send on an
  unbuffered channel blocks until a receiver takes the value, so the goroutine is always in
  one of two states: blocked in \<^verbatim>\<open>stream <- i\<close>, or returned after \<^verbatim>\<open>close(stream)\<close>.
  \<open>producer_run p i\<close> runs the goroutine from the loop test with counter \<open>i\<close> to its next
  such state.
\<close>

datatype producer = Blocked_sending go_int | Exited

definition producer_run :: "Paginator \<Rightarrow> go_int \<Rightarrow> producer" where
  "producer_run p i = (if i \<le>s NumberOfPages p then Blocked_sending i else Exited)"

definition PagesStream :: "Paginator \<Rightarrow> producer" where
  "PagesStream p = producer_run p 1"

text \<open>
  One receive \<^verbatim>\<open><-stream\<close> by the consumer: from a blocked producer it takes the value and
  lets the goroutine run on; on the closed channel it yields nothing. No other step
  changes the producer: the goroutine shares nothing else with the rest of the program.
\<close>

fun receive :: "Paginator \<Rightarrow> producer \<Rightarrow> go_int option \<times> producer" where
  "receive p (Blocked_sending i) = (Some i, producer_run p (i + 1))"
| "receive p Exited = (None, Exited)"

text \<open>
  A consumer that receives \<open>k\<close> times and then stops: the values it got, and the state in
  which it leaves the producer.
\<close>

fun receive_times :: "Paginator \<Rightarrow> nat \<Rightarrow> producer \<Rightarrow> go_int list \<times> producer" where
  "receive_times p 0 st = ([], st)"
| "receive_times p (Suc k) st =
     (case receive p st of
        (None, st') \<Rightarrow> ([], st')
      | (Some v, st') \<Rightarrow> (case receive_times p k st' of (vs, st'') \<Rightarrow> (v # vs, st'')))"

text \<open>
  A consumer that ranges over the channel, \<^verbatim>\<open>for i := range p.PagesStream()\<close>, receives
  until the channel is closed. \<open>None\<close> stands for a consumer that never sees the channel
  closed.
\<close>

partial_function (option) range_stream :: "Paginator \<Rightarrow> producer \<Rightarrow> go_int list \<Rightarrow> go_int list option" where
  "range_stream p st acc =
     (case st of
        Blocked_sending i \<Rightarrow> range_stream p (producer_run p (i + 1)) (acc @ [i])
      | Exited \<Rightarrow> Some acc)"

declare range_stream.simps [code]

subsection \<open>The serialisable summary\<close>

text \<open>
  What \<^verbatim>\<open>reflect\<close> and \<^verbatim>\<open>interface{}\<close> see of a Go value: its kind and, for the
  kinds with elements, the elements.
\<close>

datatype kind =
    Invalid_kind | Bool_kind | Int_kind | Float64_kind | String_kind | Array_kind
  | Map_kind | Slice_kind | Struct_kind

datatype go_value =
    Nil_value
  | Bool_value bool
  | Int_value go_int
  | Float_value float64
  | String_value string
  | Array_value "go_value list"
  | Slice_value "go_value list"
  | Map_value "(go_value \<times> go_value) list"
  | Struct_value "(string \<times> go_value) list"

fun Kind :: "go_value \<Rightarrow> kind" where
  "Kind Nil_value = Invalid_kind"
| "Kind (Bool_value _) = Bool_kind"
| "Kind (Int_value _) = Int_kind"
| "Kind (Float_value _) = Float64_kind"
| "Kind (String_value _) = String_kind"
| "Kind (Array_value _) = Array_kind"
| "Kind (Slice_value _) = Slice_kind"
| "Kind (Map_value _) = Map_kind"
| "Kind (Struct_value _) = Struct_kind"

text \<open>The elements of a slice value, for \<^verbatim>\<open>s.Len()\<close> and \<^verbatim>\<open>s.Index(i)\<close>.\<close>

fun elements :: "go_value \<Rightarrow> go_value list" where
  "elements (Slice_value xs) = xs"
| "elements (Array_value xs) = xs"
| "elements _ = []"

record Pagination =
  Pagination_ItemsPerPage :: go_int
  Pagination_NumberOfItems :: go_int
  Pagination_CurrentPage :: go_int
  Pagination_Offset :: go_int
  Pagination_NextPage :: go_int
  Pagination_PreviousPage :: go_int
  Pagination_TotalPages :: go_int
  Data :: "go_value list"

definition ToPagination :: "Paginator \<Rightarrow> Pagination" where
  "ToPagination p =
     \<lparr>Pagination_ItemsPerPage = ItemsPerPage p,
      Pagination_NumberOfItems = NumberOfItems p,
      Pagination_CurrentPage = CurrentPage p,
      Pagination_Offset = Offset p,
      Pagination_NextPage = NextPage p,
      Pagination_PreviousPage = PreviousPage p,
      Pagination_TotalPages = NumberOfPages p,
      Data = []\<rparr>"

text \<open>
  \<^verbatim>\<open>interfaceSlice\<close> panics unless the kind is \<^verbatim>\<open>reflect.Slice\<close>; otherwise it makes a
  slice of \<^verbatim>\<open>s.Len()\<close> nil interfaces and fills it index by index.
\<close>

function interfaceSlice_loop :: "go_value list \<Rightarrow> nat \<Rightarrow> go_value list \<Rightarrow> go_value list" where
  "interfaceSlice_loop s i ret =
     (if i < length s then interfaceSlice_loop s (i + 1) (ret[i := s ! i]) else ret)"
  by pat_completeness auto
termination
  by (relation "measure (\<lambda>(s, i, ret). length s - i)") auto

declare interfaceSlice_loop.simps [simp del]

definition interfaceSlice :: "go_value \<Rightarrow> panic + go_value list" where
  "interfaceSlice slice' =
     (if Kind slice' \<noteq> Slice_kind then Inl (Panic ''interfaceSlice given a non-slice type'')
      else Inr (interfaceSlice_loop (elements slice') 0
                  (replicate (length (elements slice')) Nil_value)))"

definition ToPaginationWithData :: "Paginator \<Rightarrow> go_value \<Rightarrow> panic + Pagination" where
  "ToPaginationWithData p slice' =
     (let pagination = ToPagination p
      in case interfaceSlice slice' of
           Inl e \<Rightarrow> Inl e
         | Inr d \<Rightarrow> Inr (pagination\<lparr>Data := d\<rparr>))"

subsection \<open>Construction from a request\<close>

text \<open>
  Of the request, which is taken to be a request with a URL and not a nil pointer,
  \<^verbatim>\<open>NewFromRequest\<close> reads only \<^verbatim>\<open>req.URL.Query()\<close>, the decoded query: a map from a key to
  the list of its values. \<^verbatim>\<open>Get\<close> returns the first value of a key, or
  the empty string when the key has none.
\<close>

type_synonym Values = "string \<rightharpoonup> string list"

record Request =
  Query :: Values

definition Get :: "Values \<Rightarrow> string \<Rightarrow> string" where
  "Get v key = (case v key of None \<Rightarrow> [] | Some [] \<Rightarrow> [] | Some (x # _) \<Rightarrow> x)"

text \<open>
  \<^verbatim>\<open>strconv.Atoi(s)\<close> is the standard library's \<^verbatim>\<open>ParseInt(s, 10, 0)\<close>: an optional sign
  and then decimal digits. The empty string, a sign alone and any other character are a
  syntax error, with result \<open>0\<close>. A number that does not fit an \<^verbatim>\<open>int\<close> is a range
  error, with the largest \<^verbatim>\<open>int\<close> of its sign as the result. The digits are accumulated
  from the left in a 64-bit unsigned number, here an integer kept below \<open>2 ^ 64\<close>, and the
  range error is raised where that would overflow, before the characters that follow are looked at.
\<close>

datatype NumError = ErrSyntax | ErrRange

definition is_digit :: "char \<Rightarrow> bool" where
  "is_digit c = (48 \<le> (of_char c :: int) \<and> (of_char c :: int) \<le> 57)"

definition digit :: "char \<Rightarrow> int" where
  "digit c = of_char c - 48"

fun ParseUint_loop :: "int \<Rightarrow> string \<Rightarrow> NumError + int" where
  "ParseUint_loop n [] = Inr n"
| "ParseUint_loop n (c # cs) =
     (if \<not> is_digit c then Inl ErrSyntax
      else if (2 ^ 64 - 1) div 10 + 1 \<le> n then Inl ErrRange
      else if 2 ^ 64 \<le> n * 10 + digit c then Inl ErrRange
      else ParseUint_loop (n * 10 + digit c) cs)"

definition ParseUint :: "string \<Rightarrow> NumError + int" where
  "ParseUint s = (if s = [] then Inl ErrSyntax else ParseUint_loop 0 s)"

definition max_int :: go_int where
  "max_int = word_of_int (2 ^ 63 - 1)"

definition Atoi :: "string \<Rightarrow> go_int \<times> NumError option" where
  "Atoi s =
     (if s = [] then (0, Some ErrSyntax)
      else let neg = (hd s = CHR ''-'');
               s' = (if hd s = CHR ''+'' \<or> hd s = CHR ''-'' then tl s else s)
           in case ParseUint s' of
                Inl ErrSyntax \<Rightarrow> (0, Some ErrSyntax)
              | Inl ErrRange \<Rightarrow> (if neg then min_int else max_int, Some ErrRange)
              | Inr un \<Rightarrow>
                  if \<not> neg \<and> 2 ^ 63 \<le> un then (max_int, Some ErrRange)
                  else if neg \<and> 2 ^ 63 < un then (min_int, Some ErrRange)
                  else (if neg then - word_of_int un else word_of_int un, None))"

text \<open>
  For the statements about the parameter as a string: whether it starts with a minus sign,
  what is left of it without a leading sign, the longest prefix of decimal digits of a
  string, and the number that a string of digits denotes.
\<close>

definition has_minus :: "string \<Rightarrow> bool" where
  "has_minus s = (s \<noteq> [] \<and> hd s = CHR ''-'')"

definition sign_stripped :: "string \<Rightarrow> string" where
  "sign_stripped s = (if s \<noteq> [] \<and> (hd s = CHR ''+'' \<or> hd s = CHR ''-'') then tl s else s)"

definition leading_digits :: "string \<Rightarrow> string" where
  "leading_digits s = takeWhile is_digit s"

definition decimal :: "string \<Rightarrow> int" where
  "decimal ds = foldl (\<lambda>a c. a * 10 + digit c) 0 ds"

definition NewFromRequest :: "go_int \<Rightarrow> go_int \<Rightarrow> Request \<Rightarrow> Paginator" where
  "NewFromRequest numberOfItems' itemsPerPage' req =
     (let currentPageString = Get (Query req) ''page'';
          currentPage' = fst (Atoi currentPageString)
      in New numberOfItems' itemsPerPage' currentPage')"

section \<open>Rounding to binary64\<close>

lemma pow2_pos: "0 < pow2 e"
  by (simp add: pow2_def)

lemma pow2_nat: "0 \<le> e \<Longrightarrow> pow2 e = 2 ^ nat e"
  by (simp add: pow2_def)

lemma pow2_neg: "e \<le> 0 \<Longrightarrow> pow2 e = 1 / 2 ^ nat (- e)"
  by (cases "e = 0") (simp_all add: pow2_def)

lemma pow2_powi: "pow2 e = 2 powi e"
proof (cases "0 \<le> e")
  case True
  then show ?thesis by (simp add: pow2_def power_int_def)
next
  case False
  then show ?thesis by (simp add: pow2_def power_int_def power_inverse inverse_eq_divide power_one_over)
qed

lemma pow2_add: "pow2 (a + b) = pow2 a * pow2 b"
  unfolding pow2_powi by (rule power_int_add) simp

lemma expo_lower:
  assumes "0 < x"
  shows "pow2 (expo x) \<le> x"
proof (cases "1 \<le> x")
  case True
  define k where "k = \<lfloor>x\<rfloor>"
  have k1: "1 \<le> k" using True by (simp add: k_def)
  have b: "2 ^ nat (bitlen k - 1) \<le> k" using bitlen_bounds [of k] k1 by simp
  have "(2::rat) ^ nat (bitlen k - 1) = of_int (2 ^ nat (bitlen k - 1))" by simp
  also have "\<dots> \<le> of_int k" using b by (simp only: of_int_le_iff)
  also have "\<dots> \<le> x" by (simp add: k_def)
  finally have "(2::rat) ^ nat (bitlen k - 1) \<le> x" .
  moreover have "1 \<le> bitlen k" using k1 by (simp add: bitlen_alt_def)
  ultimately show ?thesis using True by (simp add: expo_def pow2_def k_def)
next
  case False
  define c where "c = \<lceil>1 / x\<rceil>"
  define b where "b = bitlen (c - 1)"
  have y1: "1 < 1 / x" using False assms by simp
  then have c2: "2 \<le> c" unfolding c_def by (simp add: le_ceiling_iff)
  then have bb: "c - 1 < 2 ^ nat b" using bitlen_bounds [of "c - 1"] by (simp add: b_def)
  have b0: "0 \<le> b" by (simp add: b_def bitlen_nonneg)
  have "1 / x \<le> of_int c" by (simp add: c_def)
  also have "\<dots> \<le> of_int (2 ^ nat b)"
  proof -
    have "c \<le> 2 ^ nat b" using bb by simp
    then show ?thesis by (simp only: of_int_le_iff)
  qed
  finally have "1 / x \<le> 2 ^ nat b" by simp
  then have "1 / 2 ^ nat b \<le> x" using assms by (simp add: field_simps)
  moreover have "expo x = - b" using False by (simp add: expo_def b_def c_def)
  ultimately show ?thesis using b0 by (simp add: pow2_neg)
qed

lemma expo_upper:
  assumes "0 < x"
  shows "x < pow2 (expo x + 1)"
proof (cases "1 \<le> x")
  case True
  define k where "k = \<lfloor>x\<rfloor>"
  have k1: "1 \<le> k" using True by (simp add: k_def)
  have b: "k + 1 \<le> 2 ^ nat (bitlen k)" using bitlen_bounds [of k] k1 by simp
  have "x < of_int (k + 1)" unfolding k_def by linarith
  also have "\<dots> \<le> of_int (2 ^ nat (bitlen k))" using b by (simp only: of_int_le_iff)
  finally have "x < 2 ^ nat (bitlen k)" by simp
  moreover have "0 \<le> bitlen k" by (rule bitlen_nonneg)
  ultimately show ?thesis using True by (simp add: expo_def pow2_def k_def)
next
  case False
  define c where "c = \<lceil>1 / x\<rceil>"
  define b where "b = bitlen (c - 1)"
  have y1: "1 < 1 / x" using False assms by simp
  then have c2: "2 \<le> c" unfolding c_def by (simp add: le_ceiling_iff)
  then have bb: "2 ^ nat (b - 1) \<le> c - 1" using bitlen_bounds [of "c - 1"] by (simp add: b_def)
  have b1: "1 \<le> b" using c2 by (simp add: b_def bitlen_alt_def)
  have "of_int (2 ^ nat (b - 1)) \<le> (of_int (c - 1) :: rat)" using bb by (simp only: of_int_le_iff)
  also have "\<dots> < 1 / x" unfolding c_def by linarith
  finally have "2 ^ nat (b - 1) < 1 / x" by simp
  then have "x < 1 / 2 ^ nat (b - 1)" using assms by (simp add: field_simps)
  moreover have "expo x + 1 = - (b - 1)" using False by (simp add: expo_def b_def c_def)
  ultimately show ?thesis using b1 by (simp add: pow2_neg)
qed

lemma round_half_even_of_int: "round_half_even (of_int k) = k"
  by (simp add: round_half_even_def)

lemma round_half_even_error: "\<bar>of_int (round_half_even m) - m\<bar> \<le> 1 / 2"
proof -
  have "of_int \<lfloor>m\<rfloor> \<le> m" "m < of_int \<lfloor>m\<rfloor> + 1" by linarith+
  then show ?thesis by (auto simp: round_half_even_def Let_def)
qed

lemma expo_nonneg: "1 \<le> x \<Longrightarrow> 0 \<le> expo x"
proof -
  assume x: "1 \<le> x"
  then have "1 \<le> \<lfloor>x\<rfloor>" by simp
  then have "1 \<le> bitlen \<lfloor>x\<rfloor>" by (simp add: bitlen_alt_def)
  then show ?thesis using x by (simp add: expo_def)
qed

lemma round53_pos:
  assumes "0 < x"
  shows "round53 x = of_int (round_half_even (x / pow2 (expo x - 52))) * pow2 (expo x - 52)"
  using assms by (simp add: round53_def Let_def)

lemma round53_of_int:
  assumes "0 \<le> k" and "k < 2 ^ 53"
  shows "round53 (of_int k) = of_int k"
proof (cases "k = 0")
  case True
  then show ?thesis by (simp add: round53_def)
next
  case False
  define x :: rat where "x = of_int k"
  define e where "e = expo x"
  have x1: "1 \<le> x" using assms False by (simp add: x_def)
  have e0: "0 \<le> e" unfolding e_def using x1 by (rule expo_nonneg)
  have xlt: "x < 2 ^ 53"
  proof -
    have "(of_int k :: rat) < of_int (2 ^ 53)" using assms(2) by (simp only: of_int_less_iff)
    then show ?thesis by (simp add: x_def)
  qed
  have e52: "e \<le> 52"
  proof (rule ccontr)
    assume "\<not> e \<le> 52"
    then have "53 \<le> nat e" by simp
    then have "(2::rat) ^ 53 \<le> 2 ^ nat e" by (intro power_increasing) simp_all
    also have "\<dots> = pow2 e" using e0 by (simp add: pow2_nat)
    also have "\<dots> \<le> x" unfolding e_def using x1 by (intro expo_lower) simp
    finally show False using xlt by simp
  qed
  define d where "d = nat (52 - e)"
  have u: "pow2 (e - 52) = 1 / 2 ^ d" using e52 by (simp add: pow2_neg d_def)
  have "x / pow2 (e - 52) = of_int (k * 2 ^ d)" by (simp add: u x_def)
  then have "round_half_even (x / pow2 (e - 52)) = k * 2 ^ d"
    by (simp only: round_half_even_of_int)
  then have "round53 x = of_int (k * 2 ^ d) * (1 / 2 ^ d)"
    using x1 by (simp add: round53_pos e_def [symmetric] u)
  then show ?thesis by (simp add: x_def)
qed

lemma round53_error:
  assumes "0 < x"
  shows "\<bar>round53 x - x\<bar> \<le> x / 2 ^ 53"
proof -
  define u where "u = pow2 (expo x - 52)"
  define r :: rat where "r = of_int (round_half_even (x / u))"
  have u0: "0 < u" by (simp add: u_def pow2_pos)
  have "\<bar>r - x / u\<bar> \<le> 1 / 2" unfolding r_def by (rule round_half_even_error)
  then have "\<bar>r - x / u\<bar> * u \<le> 1 / 2 * u" using u0 by (intro mult_right_mono) simp_all
  moreover have "\<bar>r - x / u\<bar> * u = \<bar>r * u - x\<bar>"
  proof -
    have "\<bar>r - x / u\<bar> * u = \<bar>(r - x / u) * u\<bar>" using u0 by (simp add: abs_mult)
    also have "(r - x / u) * u = r * u - x" using u0 by (simp add: field_simps)
    finally show ?thesis .
  qed
  ultimately have err: "\<bar>r * u - x\<bar> \<le> u / 2" by simp
  have "u = pow2 (expo x) * pow2 (- 52)" unfolding u_def using pow2_add [of "expo x" "- 52"] by simp
  also have "pow2 (- 52) = 1 / 2 ^ 52" by (simp add: pow2_def)
  finally have "u / 2 = pow2 (expo x) / 2 ^ 53" by simp
  also have "\<dots> \<le> x / 2 ^ 53" using expo_lower [OF assms] by (simp add: divide_right_mono)
  finally have "u / 2 \<le> x / 2 ^ 53" .
  with err have "\<bar>r * u - x\<bar> \<le> x / 2 ^ 53" by simp
  moreover have "round53 x = r * u" using assms by (simp add: round53_pos r_def u_def)
  ultimately show ?thesis by simp
qed

lemma ceiling_round53_div:
  assumes n: "0 \<le> n" "n < 2 ^ 53" and p: "0 < p" "p < 2 ^ 53"
  shows "\<lceil>round53 (of_int n / of_int p)\<rceil> = - (- n div p)"
proof (cases "n = 0")
  case True
  then show ?thesis by (simp add: round53_def)
next
  case False
  define x :: rat where "x = of_int n / of_int p"
  define q where "q = \<lceil>x\<rceil>"
  have q_div: "q = - (- n div p)" unfolding q_def x_def by (rule ceiling_divide_eq_div)
  have rp: "(0::rat) < of_int p" using p by simp
  have x0: "0 < x" using False n p by (simp add: x_def)
  have n53: "(of_int n :: rat) < 2 ^ 53"
  proof -
    have "(of_int n :: rat) < of_int (2 ^ 53)" using n(2) by (simp only: of_int_less_iff)
    then show ?thesis by simp
  qed
  have err: "\<bar>round53 x - x\<bar> < 1 / of_int p"
  proof -
    have "\<bar>round53 x - x\<bar> \<le> x / 2 ^ 53" using x0 by (rule round53_error)
    also have "\<dots> = (of_int n / 2 ^ 53) / of_int p" by (simp add: x_def)
    also have "\<dots> < 1 / of_int p" using n53 rp by (intro divide_strict_right_mono) simp_all
    finally show ?thesis .
  qed
  have xq: "of_int q - 1 < x" "x \<le> of_int q" unfolding q_def by linarith+
  have low: "of_int (q - 1) + 1 / of_int p \<le> x"
  proof -
    have "of_int (q - 1) * of_int p < (of_int n :: rat)" using xq(1) rp by (simp add: x_def field_simps)
    then have "(q - 1) * p < n" by (simp only: of_int_mult [symmetric] of_int_less_iff)
    then have "(q - 1) * p + 1 \<le> n" by simp
    then have "(of_int ((q - 1) * p + 1) :: rat) \<le> of_int n" by (simp only: of_int_le_iff)
    then have "(of_int (q - 1) * of_int p + 1) / of_int p \<le> (of_int n :: rat) / of_int p"
      using rp by (intro divide_right_mono) simp_all
    moreover have "(of_int (q - 1) * of_int p + 1) / of_int p = of_int (q - 1) + 1 / (of_int p :: rat)"
      using rp by (simp add: add_divide_distrib)
    ultimately show ?thesis by (simp add: x_def)
  qed
  have lower: "of_int q - 1 < round53 x" using low err by (simp add: abs_less_iff)
  have upper: "round53 x \<le> of_int q"
  proof (cases "x = of_int q")
    case True
    have "0 \<le> q" using x0 True by (metis less_imp_le of_int_0_le_iff)
    moreover have "q < 2 ^ 53"
    proof -
      have "x \<le> of_int n" using n p by (simp add: x_def field_simps mult_le_cancel_left1)
      then have "(of_int q :: rat) \<le> of_int n" using True by simp
      then have "q \<le> n" by (simp only: of_int_le_iff)
      then show ?thesis using n(2) by simp
    qed
    ultimately show ?thesis using True by (simp add: round53_of_int)
  next
    case neq: False
    have "x * of_int p < of_int q * of_int p" using xq(2) neq rp by simp
    then have "(of_int n :: rat) < of_int (q * p)" using rp by (simp add: x_def)
    then have "n < q * p" by (simp only: of_int_less_iff)
    then have "n + 1 \<le> q * p" by simp
    then have "(of_int (n + 1) :: rat) \<le> of_int (q * p)" by (simp only: of_int_le_iff)
    then have "(of_int n + 1) / of_int p \<le> (of_int q * of_int p) / (of_int p :: rat)"
      using rp by (intro divide_right_mono) simp_all
    moreover have "(of_int n + 1) / of_int p = x + 1 / (of_int p :: rat)"
      by (simp add: x_def add_divide_distrib)
    ultimately have "x + 1 / of_int p \<le> of_int q" using rp by simp
    then show ?thesis using err by (simp add: abs_less_iff)
  qed
  have "\<lceil>round53 x\<rceil> = q" using lower upper by (rule ceiling_unique)
  then show ?thesis by (simp add: x_def q_div)
qed

section \<open>Arithmetic on \<^verbatim>\<open>int\<close>\<close>

lemma sint_sub1:
  fixes c :: go_int
  assumes "1 < sint c"
  shows "sint (c - 1) = sint c - 1"
proof -
  have "sint c < 2 ^ 63" using sint_lt [of c] by simp
  then have "signed_take_bit 63 (sint c - 1) = sint c - 1"
    using assms by (intro signed_take_bit_int_eq_self) simp_all
  then show ?thesis by (simp add: sint_word_ariths)
qed

lemma sint_add1:
  fixes c d :: go_int
  assumes "sint c < sint d"
  shows "sint (c + 1) = sint c + 1"
proof -
  have "sint d < 2 ^ 63" using sint_lt [of d] by simp
  moreover have "- (2 ^ 63) \<le> sint c" using sint_ge [of c] by simp
  ultimately have "signed_take_bit 63 (sint c + 1) = sint c + 1"
    using assms by (intro signed_take_bit_int_eq_self) simp_all
  then show ?thesis by (simp add: sint_word_ariths)
qed

lemma sint_word_of_int_64:
  assumes "- (2 ^ 63) \<le> k" and "k < 2 ^ 63"
  shows "sint (word_of_int k :: go_int) = k"
  using assms by (simp add: sint_sbintrunc' signed_take_bit_int_eq_self)

section \<open>The page count\<close>

lemma trunc_of_int: "trunc (of_int k) = k"
  by (simp add: trunc_def)

lemma ceiling_div_bounds:
  fixes n p :: int
  assumes "0 \<le> n" and "0 < p"
  shows "0 \<le> - (- n div p)" and "- (- n div p) \<le> n" and "1 \<le> n \<Longrightarrow> 1 \<le> - (- n div p)"
proof -
  have c: "- (- n div p) = \<lceil>(of_int n :: rat) / of_int p\<rceil>"
    by (simp only: ceiling_divide_eq_div)
  have x0: "(0::rat) \<le> of_int n / of_int p" using assms by simp
  show "0 \<le> - (- n div p)" unfolding c using x0 by (simp add: ceiling_le_iff le_ceiling_iff)
  have "(of_int n :: rat) / of_int p \<le> of_int n"
  proof -
    have "(1::rat) \<le> of_int p" using assms(2) by simp
    moreover have "(0::rat) \<le> of_int n" using assms(1) by simp
    ultimately have "(of_int n :: rat) / of_int p \<le> of_int n / 1" by (intro divide_left_mono) simp_all
    then show ?thesis by simp
  qed
  then show "- (- n div p) \<le> n" unfolding c by (simp add: ceiling_le_iff)
  show "1 \<le> - (- n div p)" if "1 \<le> n"
  proof -
    have "(0::rat) < of_int n / of_int p" using that assms by simp
    then show ?thesis unfolding c by (simp add: le_ceiling_iff)
  qed
qed

lemma pages_needed_exact:
  assumes n: "0 \<le> sint n" "sint n < 2 ^ 53" and p: "0 < sint p" "sint p < 2 ^ 53"
  shows "sint (pages_needed n p) = - (- sint n div sint p)"
proof -
  define q where "q = - (- sint n div sint p)"
  have "round53 (of_int (sint n)) = of_int (sint n)" using n by (rule round53_of_int)
  then have fn: "float64_of_int n = Finite (of_int (sint n))"
    by (simp only: float64_of_int_def)
  have "round53 (of_int (sint p)) = of_int (sint p)" using p by (intro round53_of_int) simp_all
  then have fp: "float64_of_int p = Finite (of_int (sint p))"
    by (simp only: float64_of_int_def)
  have "(of_int (sint p) :: rat) \<noteq> 0" using p by (simp del: of_int_sint)
  then have "float64_div (float64_of_int n) (float64_of_int p)
      = Finite (round53 (of_int (sint n) / of_int (sint p)))"
    by (simp add: fn fp float64_div_def del: of_int_sint)
  moreover have "\<lceil>round53 (of_int (sint n) / of_int (sint p))\<rceil> = q"
    unfolding q_def using n p by (rule ceiling_round53_div)
  ultimately have c: "Ceil (float64_div (float64_of_int n) (float64_of_int p)) = Finite (of_int q)"
    by (simp del: of_int_sint)
  have q0: "0 \<le> q" and qn: "q \<le> sint n"
    unfolding q_def using n(1) p(1) by (rule ceiling_div_bounds)+
  have q63: "q < 2 ^ 63" using qn n(2) by simp
  have pn: "pages_needed n p = word_of_int q"
    using q0 q63 by (simp add: pages_needed_def c trunc_of_int)
  have "sint (word_of_int q :: go_int) = q"
    using q0 q63 by (intro sint_word_of_int_64) simp_all
  then show ?thesis by (simp only: pn q_def)
qed

lemma pages_needed_zero:
  assumes "0 < sint p" and "sint p < 2 ^ 53"
  shows "pages_needed 0 p = 0"
proof -
  have "sint (pages_needed 0 p) = 0" using assms pages_needed_exact [of 0 p] by simp
  then show ?thesis by (intro signed_word_eqI [where ?'a = int]) simp
qed

lemma NumberOfPages_New: "NumberOfPages (New n perPage page) = pages_needed n perPage"
  by (simp add: NumberOfPages_def New_def Let_def NumberOfItems_def ItemsPerPage_def)

lemma CurrentPage_New:
  "CurrentPage (New n perPage page) =
     (let c = (if page = 0 then 1 else page)
      in if pages_needed n perPage <s c then pages_needed n perPage else c)"
  by (simp add: CurrentPage_def New_def Let_def)

lemma New_beyond_exact_range: "CurrentPage (New 9007199254740993 1 9007199254740993) = 9007199254740992"
  by code_simp

text \<open>
  The page count is never the largest \<^verbatim>\<open>int\<close>: a binary64 number of that size is a
  multiple of \<open>1024\<close>. So a counter that is at most the page count can be incremented
  without wrapping, and the loops over the pages end.
\<close>

lemma round_half_even_lower: "\<lfloor>m\<rfloor> \<le> round_half_even m"
  by (simp add: round_half_even_def Let_def)

lemma round_half_even_upper: "round_half_even m \<le> \<lfloor>m\<rfloor> + 1"
  by (simp add: round_half_even_def Let_def)

lemma pow2_le_512: "d \<le> 9 \<Longrightarrow> pow2 d \<le> 2 ^ 9"
proof (cases "0 \<le> d")
  case True
  assume "d \<le> 9"
  then have "nat d \<le> 9" by simp
  then have "(2::rat) ^ nat d \<le> 2 ^ 9" by (intro power_increasing) simp_all
  then show ?thesis using True by (simp only: pow2_nat)
next
  case False
  have "(1::rat) / 2 ^ nat (- d) \<le> 1" by simp
  also have "(1::rat) \<le> 2 ^ 9" by simp
  finally show ?thesis using False by (simp add: pow2_def)
qed

lemma round53_nonpos: "x \<le> 0 \<Longrightarrow> round53 x \<le> 0"
proof (cases "x = 0")
  case True
  then show ?thesis by (simp add: round53_def)
next
  case False
  assume "x \<le> 0"
  then have neg: "x < 0" using False by simp
  define u where "u = pow2 (expo \<bar>x\<bar> - 52)"
  have u0: "0 < u" by (simp add: u_def pow2_pos)
  have "0 \<le> \<bar>x\<bar> / u" using u0 by simp
  then have "0 \<le> \<lfloor>\<bar>x\<bar> / u\<rfloor>" by simp
  then have "0 \<le> round_half_even (\<bar>x\<bar> / u)"
    using round_half_even_lower [of "\<bar>x\<bar> / u"] by linarith
  then have "0 \<le> of_int (round_half_even (\<bar>x\<bar> / u)) * u" using u0 by simp
  moreover have "round53 x = - (of_int (round_half_even (\<bar>x\<bar> / u)) * u)"
    using neg by (simp add: round53_def Let_def u_def)
  ultimately show ?thesis by simp
qed

lemma ceiling_round53_not_max: "\<lceil>round53 x\<rceil> \<noteq> 2 ^ 63 - 1"
proof
  assume c: "\<lceil>round53 x\<rceil> = 2 ^ 63 - 1"
  then have "of_int (2 ^ 63 - 1) - 1 < round53 x" by (simp only: ceiling_eq_iff)
  then have big: "2 ^ 62 < round53 x" by simp
  then have x0: "0 < x" using round53_nonpos [of x] by (cases "0 < x") simp_all
  define d where "d = expo x - 52"
  define r where "r = round_half_even (x / pow2 d)"
  have y: "round53 x = of_int r * pow2 d" using x0 by (simp add: round53_pos r_def d_def)
  have "x < pow2 (expo x + 1)" using x0 by (rule expo_upper)
  also have "expo x + 1 = d + 53" by (simp add: d_def)
  also have "pow2 (d + 53) = pow2 d * 2 ^ 53" using pow2_add [of d 53] by (simp add: pow2_def)
  finally have "x / pow2 d < 2 ^ 53" using pow2_pos [of d] by (simp add: field_simps)
  then have "x / pow2 d < of_int (2 ^ 53)" by simp
  then have "\<lfloor>x / pow2 d\<rfloor> < 2 ^ 53" by (simp only: floor_less_iff)
  then have r53: "r \<le> 2 ^ 53"
    using round_half_even_upper [of "x / pow2 d"] unfolding r_def by linarith
  have d10: "10 \<le> d"
  proof (rule ccontr)
    assume "\<not> 10 \<le> d"
    then have "pow2 d \<le> 2 ^ 9" by (intro pow2_le_512) simp
    moreover have "(of_int r :: rat) \<le> of_int (2 ^ 53)" using r53 by (simp only: of_int_le_iff)
    moreover have "(0::rat) \<le> of_int r"
    proof -
      have "0 \<le> x / pow2 d" using x0 pow2_pos [of d] by simp
      then have "0 \<le> \<lfloor>x / pow2 d\<rfloor>" by simp
      then have "0 \<le> r" using round_half_even_lower [of "x / pow2 d"] unfolding r_def by linarith
      then show ?thesis by simp
    qed
    ultimately have "of_int r * pow2 d \<le> of_int (2 ^ 53) * 2 ^ 9"
      using pow2_pos [of d] by (intro mult_mono) simp_all
    then show False using big y by simp
  qed
  then have "pow2 d = of_int (2 ^ nat d)" by (simp add: pow2_nat)
  then have "round53 x = of_int (r * 2 ^ nat d)" by (simp add: y)
  then have "\<lceil>round53 x\<rceil> = r * 2 ^ nat d" by (simp only: ceiling_of_int)
  moreover have "even (r * 2 ^ nat d)" using d10 by simp
  ultimately have "even (2 ^ 63 - 1 :: int)" using c by simp
  then show False by simp
qed

lemma sint_min_int: "sint min_int = - (2 ^ 63)"
  by (simp add: min_int_def)

lemma pages_needed_not_max: "sint (pages_needed n p) \<noteq> 2 ^ 63 - 1"
proof -
  define a where "a = round53 (of_int (sint n))"
  define b where "b = round53 (of_int (sint p))"
  have fa: "float64_of_int n = Finite a" and fb: "float64_of_int p = Finite b"
    by (simp_all only: float64_of_int_def a_def b_def)
  show ?thesis
  proof (cases "b = 0")
    case True
    then have "int_of_float64 (Ceil (float64_div (Finite a) (Finite b))) = min_int"
      by (simp add: float64_div_def)
    then show ?thesis by (simp add: pages_needed_def fa fb sint_min_int)
  next
    case False
    define c where "c = \<lceil>round53 (a / b)\<rceil>"
    have cmax: "c \<noteq> 2 ^ 63 - 1" unfolding c_def by (rule ceiling_round53_not_max)
    have pn: "pages_needed n p =
        (if - (2 ^ 63) \<le> c \<and> c < 2 ^ 63 then word_of_int c else min_int)"
      using False by (simp add: pages_needed_def fa fb float64_div_def trunc_of_int c_def)
    show ?thesis
    proof (cases "- (2 ^ 63) \<le> c \<and> c < 2 ^ 63")
      case True
      then have "sint (word_of_int c :: go_int) = c" by (intro sint_word_of_int_64) simp_all
      then show ?thesis using True cmax by (simp only: pn if_True) simp
    next
      case False
      then show ?thesis by (simp only: pn if_False sint_min_int) simp
    qed
  qed
qed

lemma NumberOfPages_not_max: "sint (NumberOfPages p) < 2 ^ 63 - 1"
proof -
  have "sint (NumberOfPages p) < 2 ^ 63" using sint_lt [of "NumberOfPages p"] by simp
  moreover have "sint (NumberOfPages p) \<noteq> 2 ^ 63 - 1"
    unfolding NumberOfPages_def by (rule pages_needed_not_max)
  ultimately show ?thesis by simp
qed

lemma sint_succ_le:
  fixes i :: go_int
  assumes "sint i \<le> sint (NumberOfPages p)"
  shows "sint (i + 1) = sint i + 1"
proof -
  have "sint i < 2 ^ 63 - 1" using assms NumberOfPages_not_max [of p] by simp
  then have "signed_take_bit 63 (sint i + 1) = sint i + 1"
    using sint_ge [of i] by (intro signed_take_bit_int_eq_self) simp_all
  then show ?thesis by (simp add: sint_word_ariths)
qed

section \<open>The page list and the page stream\<close>

lemma word_of_int_sint_64: "word_of_int (sint (i :: go_int)) = i"
  by simp

lemma Pages_loop_upto:
  "Pages_loop p i s = Some (s @ map word_of_int [sint i..sint (NumberOfPages p)])"
proof (induction "nat (sint (NumberOfPages p) - sint i + 1)" arbitrary: i s)
  case 0
  then have gt: "sint (NumberOfPages p) < sint i" by simp
  then have "\<not> i \<le>s NumberOfPages p" by (simp add: word_sle_eq)
  then show ?case using gt by (subst Pages_loop.simps) simp
next
  case (Suc k)
  then have le: "sint i \<le> sint (NumberOfPages p)" by simp
  then have s1: "sint (i + 1) = sint i + 1" by (rule sint_succ_le)
  have "k = nat (sint (NumberOfPages p) - sint (i + 1) + 1)" using Suc(2) s1 by simp
  then have IH: "Pages_loop p (i + 1) (s @ [i])
      = Some ((s @ [i]) @ map word_of_int [sint (i + 1)..sint (NumberOfPages p)])"
    by (rule Suc(1))
  have "[sint i..sint (NumberOfPages p)] = sint i # [sint i + 1..sint (NumberOfPages p)]"
    using le by (rule upto_rec1)
  then have "map word_of_int [sint i..sint (NumberOfPages p)]
      = i # map word_of_int [sint (i + 1)..sint (NumberOfPages p)]"
    by (simp add: s1)
  moreover have "i \<le>s NumberOfPages p" using le by (simp add: word_sle_eq)
  ultimately show ?case by (subst Pages_loop.simps) (simp add: IH)
qed

lemma range_stream_upto:
  "range_stream p (producer_run p i) acc
           = Some (acc @ map word_of_int [sint i..sint (NumberOfPages p)])"
proof (induction "nat (sint (NumberOfPages p) - sint i + 1)" arbitrary: i acc)
  case 0
  then have gt: "sint (NumberOfPages p) < sint i" by simp
  then have "producer_run p i = Exited" by (simp add: producer_run_def word_sle_eq)
  then show ?case using gt by (subst range_stream.simps) simp
next
  case (Suc k)
  then have le: "sint i \<le> sint (NumberOfPages p)" by simp
  then have s1: "sint (i + 1) = sint i + 1" by (rule sint_succ_le)
  have "k = nat (sint (NumberOfPages p) - sint (i + 1) + 1)" using Suc(2) s1 by simp
  then have IH: "range_stream p (producer_run p (i + 1)) (acc @ [i])
      = Some ((acc @ [i]) @ map word_of_int [sint (i + 1)..sint (NumberOfPages p)])"
    by (rule Suc(1))
  have "[sint i..sint (NumberOfPages p)] = sint i # [sint i + 1..sint (NumberOfPages p)]"
    using le by (rule upto_rec1)
  then have "map word_of_int [sint i..sint (NumberOfPages p)]
      = i # map word_of_int [sint (i + 1)..sint (NumberOfPages p)]"
    by (simp add: s1)
  moreover have "producer_run p i = Blocked_sending i"
    using le by (simp add: producer_run_def word_sle_eq)
  ultimately show ?case by (subst range_stream.simps) (simp add: IH)
qed

lemma map_sint_word_of_int_upto:
  assumes "- (2 ^ 63) \<le> a" and "b < 2 ^ 63"
  shows "map sint (map word_of_int [a..b] :: go_int list) = [a..b]"
proof -
  have "sint (word_of_int k :: go_int) = k" if "k \<in> set [a..b]" for k
    using that assms by (intro sint_word_of_int_64) simp_all
  then have "map (sint \<circ> (word_of_int :: int \<Rightarrow> go_int)) [a..b] = map id [a..b]"
    by (intro map_cong) simp_all
  then show ?thesis by simp
qed

lemma sorted_wrt_sless_upto:
  assumes "- (2 ^ 63) \<le> a" and "b < 2 ^ 63"
  shows "sorted_wrt (<s) (map word_of_int [a..b] :: go_int list)"
proof -
  have "sorted_wrt (<) (map sint (map word_of_int [a..b] :: go_int list))"
    using assms by (simp only: map_sint_word_of_int_upto sorted_wrt_upto)
  then show ?thesis by (simp add: sorted_wrt_map word_sless_alt)
qed

lemma receive_times_blocked:
  assumes "sint i + int k \<le> sint (NumberOfPages p)"
  shows "receive_times p k (producer_run p i)
           = (map word_of_int [sint i..sint i + int k - 1],
              Blocked_sending (word_of_int (sint i + int k)))"
  using assms
proof (induction k arbitrary: i)
  case 0
  then have "producer_run p i = Blocked_sending i" by (simp add: producer_run_def word_sle_eq)
  then show ?case by simp
next
  case (Suc k)
  then have le: "sint i \<le> sint (NumberOfPages p)" by simp
  have s1: "sint (i + 1) = sint i + 1" using le by (rule sint_succ_le)
  have run: "producer_run p i = Blocked_sending i"
    using le by (simp add: producer_run_def word_sle_eq)
  have "sint (i + 1) + int k \<le> sint (NumberOfPages p)" using Suc.prems s1 by simp
  then have IH: "receive_times p k (producer_run p (i + 1))
      = (map word_of_int [sint (i + 1)..sint (i + 1) + int k - 1],
         Blocked_sending (word_of_int (sint (i + 1) + int k)))"
    by (rule Suc.IH)
  have up: "[sint i..sint i + int (Suc k) - 1] = sint i # [sint i + 1..sint i + int (Suc k) - 1]"
    by (intro upto_rec1) simp
  have "[sint i + 1..sint i + int (Suc k) - 1] = [sint (i + 1)..sint (i + 1) + int k - 1]"
    by (simp add: s1)
  then have "map word_of_int [sint i..sint i + int (Suc k) - 1]
      = (word_of_int (sint i) :: go_int) # map word_of_int [sint (i + 1)..sint (i + 1) + int k - 1]"
    by (simp only: up list.map)
  then have vals: "map word_of_int [sint i..sint i + int (Suc k) - 1]
      = i # map word_of_int [sint (i + 1)..sint (i + 1) + int k - 1]"
    by (simp only: word_of_int_sint_64)
  have last: "sint (i + 1) + int k = sint i + int (Suc k)" by (simp add: s1)
  have "receive_times p (Suc k) (producer_run p i)
      = (i # map word_of_int [sint (i + 1)..sint (i + 1) + int k - 1],
         Blocked_sending (word_of_int (sint (i + 1) + int k)))"
    by (simp add: run IH)
  then show ?case by (simp only: vals last)
qed

lemma receive_times_exited:
  assumes "sint (NumberOfPages p) < sint i + int k"
  shows "snd (receive_times p k (producer_run p i)) = Exited"
  using assms
proof (induction k arbitrary: i)
  case 0
  then show ?case by (simp add: producer_run_def word_sle_eq)
next
  case (Suc k)
  show ?case
  proof (cases "sint i \<le> sint (NumberOfPages p)")
    case True
    have s1: "sint (i + 1) = sint i + 1" using True by (rule sint_succ_le)
    have run: "producer_run p i = Blocked_sending i"
      using True by (simp add: producer_run_def word_sle_eq)
    have "sint (NumberOfPages p) < sint (i + 1) + int k" using Suc.prems s1 by simp
    then have "snd (receive_times p k (producer_run p (i + 1))) = Exited" by (rule Suc.IH)
    then obtain vs where "receive_times p k (producer_run p (i + 1)) = (vs, Exited)"
      by (cases "receive_times p k (producer_run p (i + 1))") simp
    then show ?thesis by (simp add: run)
  next
    case False
    then have "producer_run p i = Exited" by (simp add: producer_run_def word_sle_eq)
    then show ?thesis by simp
  qed
qed

section \<open>The summary and the request\<close>

lemma interfaceSlice_loop_copies:
  assumes "length ret = length s" and "i \<le> length s" and "take i ret = take i s"
  shows "interfaceSlice_loop s i ret = s"
  using assms
proof (induction s i ret rule: interfaceSlice_loop.induct)
  case (1 s i ret)
  show ?case
  proof (cases "i < length s")
    case True
    have "take (i + 1) (ret[i := s ! i]) = take i (ret[i := s ! i]) @ [ret[i := s ! i] ! i]"
      using True "1.prems"(1) by (simp add: take_Suc_conv_app_nth)
    also have "\<dots> = take i s @ [s ! i]" using True "1.prems" by simp
    also have "\<dots> = take (i + 1) s" using True by (simp add: take_Suc_conv_app_nth)
    finally have "interfaceSlice_loop s (i + 1) (ret[i := s ! i]) = s"
      using True "1.prems"(1) by (intro "1.IH") simp_all
    then show ?thesis using True by (subst interfaceSlice_loop.simps) simp
  next
    case False
    then have "i = length s" using "1.prems"(2) by simp
    then have "ret = s" using "1.prems"(1,3) by simp
    then show ?thesis using False by (subst interfaceSlice_loop.simps) simp
  qed
qed

lemma interfaceSlice_Slice:
  "Kind v = Slice_kind \<Longrightarrow> interfaceSlice v = Inr (elements v)"
  by (simp add: interfaceSlice_def interfaceSlice_loop_copies)

lemma Atoi_syntax_zero: "snd (Atoi s) = Some ErrSyntax \<Longrightarrow> fst (Atoi s) = 0"
  by (auto simp: Atoi_def Let_def split: if_splits sum.splits NumError.splits)

lemma Atoi_range_extreme:
  "snd (Atoi s) = Some ErrRange \<Longrightarrow> fst (Atoi s) = max_int \<or> fst (Atoi s) = min_int"
  by (auto simp: Atoi_def Let_def split: if_splits sum.splits NumError.splits)

lemma Atoi_empty: "Atoi [] = (0, Some ErrSyntax)"
  by (simp add: Atoi_def)

lemma Get_missing: "v key = None \<Longrightarrow> Get v key = []"
  by (simp add: Get_def)

lemma Atoi_examples:
  "Atoi ''7'' = (7, None)"
  "Atoi ''abc'' = (0, Some ErrSyntax)"
  "Atoi ''9223372036854775808'' = (max_int, Some ErrRange)"
  by code_simp+

lemma max_int_not_zero: "max_int \<noteq> 0"
proof
  assume "max_int = 0"
  then have "sint max_int = sint (0 :: go_int)" by simp
  moreover have "sint max_int = 2 ^ 63 - 1"
    unfolding max_int_def by (intro sint_word_of_int_64) simp_all
  ultimately show False by simp
qed

lemma New_examples:
  "CurrentPage (New 10 2 0) = 1"
  "CurrentPage (New 10 2 max_int) = 5"
  by code_simp+

section \<open>The current page when there is an item\<close>

text \<open>
  With at least one item there is at least one page, and the current page that \<^verbatim>\<open>New\<close>
  stores for a requested page that is not negative lies between \<open>1\<close> and the page count;
  the requested page \<open>0\<close> becomes page \<open>1\<close>.
\<close>

lemma current_page_within_pages:
  assumes "1 \<le> sint n" and "sint n < 2 ^ 53" and "0 < sint perPage" and "sint perPage < 2 ^ 53"
    and "0 \<le> sint page"
  shows "1 \<le> sint (CurrentPage (New n perPage page))"
    and "sint (CurrentPage (New n perPage page)) \<le> - (- sint n div sint perPage)"
proof -
  define T where "T = - (- sint n div sint perPage)"
  have e: "sint (pages_needed n perPage) = T"
    using assms(1-4) by (simp add: pages_needed_exact T_def)
  have T1: "1 \<le> T" unfolding T_def using assms(1,3) by (intro ceiling_div_bounds(3)) simp_all
  define c where "c = (if page = 0 then 1 else page)"
  have c1: "1 \<le> sint c"
  proof (cases "page = 0")
    case True
    then show ?thesis by (simp add: c_def)
  next
    case False
    then have "sint page \<noteq> 0" by (metis signed_word_eqI sint_0)
    then show ?thesis using assms(5) False by (simp add: c_def)
  qed
  have cur: "CurrentPage (New n perPage page) = (if T < sint c then pages_needed n perPage else c)"
    by (simp add: CurrentPage_New word_sless_alt e c_def Let_def)
  show "1 \<le> sint (CurrentPage (New n perPage page))" using T1 c1 by (simp add: cur e)
  show "sint (CurrentPage (New n perPage page)) \<le> - (- sint n div sint perPage)"
    unfolding T_def [symmetric] by (simp add: cur e)
qed

lemma zero_page_is_first:
  assumes "1 \<le> sint n" and "sint n < 2 ^ 53" and "0 < sint perPage" and "sint perPage < 2 ^ 53"
  shows "CurrentPage (New n perPage 0) = 1"
proof -
  have "sint (pages_needed n perPage) = - (- sint n div sint perPage)"
    using assms by (simp add: pages_needed_exact)
  moreover have "1 \<le> - (- sint n div sint perPage)"
    using assms(1,3) by (intro ceiling_div_bounds(3)) simp_all
  ultimately have "\<not> pages_needed n perPage <s 1" by (simp add: word_sless_alt)
  then show ?thesis by (simp add: CurrentPage_New)
qed

section \<open>\<^verbatim>\<open>Atoi\<close> by the shape of the string\<close>

text \<open>
  The digits are read from the left and the value only grows, so the range error is
  raised exactly when the leading digits denote \<open>2 ^ 64\<close> or more, whatever follows them; a
  character that is not a digit is a syntax error only when it is reached.
\<close>

lemma digit_nonneg: "is_digit c \<Longrightarrow> 0 \<le> digit c"
  by (simp add: is_digit_def digit_def)

lemma foldl_digits_ge:
  assumes "\<forall>c \<in> set ds. is_digit c" and "0 \<le> n"
  shows "n \<le> foldl (\<lambda>a c. a * 10 + digit c) n ds"
  using assms
proof (induction ds arbitrary: n)
  case Nil
  then show ?case by simp
next
  case (Cons c ds)
  have d: "0 \<le> digit c" using Cons.prems(1) by (simp add: digit_nonneg)
  then have "n \<le> n * 10 + digit c" using Cons.prems(2) by simp
  also have "\<dots> \<le> foldl (\<lambda>a c. a * 10 + digit c) (n * 10 + digit c) ds"
    using Cons.prems d by (intro Cons.IH) simp_all
  finally show ?case by simp
qed

lemma ParseUint_loop_shape:
  assumes "0 \<le> n" and "n < 2 ^ 64"
  shows "ParseUint_loop n cs =
     (if 2 ^ 64 \<le> foldl (\<lambda>a c. a * 10 + digit c) n (takeWhile is_digit cs) then Inl ErrRange
      else if takeWhile is_digit cs \<noteq> cs then Inl ErrSyntax
      else Inr (foldl (\<lambda>a c. a * 10 + digit c) n (takeWhile is_digit cs)))"
  using assms
proof (induction cs arbitrary: n)
  case Nil
  then show ?case by simp
next
  case (Cons c cs)
  let ?f = "\<lambda>(a::int) c. a * 10 + digit c"
  show ?case
  proof (cases "is_digit c")
    case False
    then show ?thesis using Cons.prems by simp
  next
    case True
    define n' where "n' = n * 10 + digit c"
    have d: "0 \<le> digit c" using True by (rule digit_nonneg)
    have n'0: "0 \<le> n'" using Cons.prems(1) d by (simp add: n'_def)
    have ge: "n' \<le> foldl ?f n' (takeWhile is_digit cs)"
      using n'0 by (intro foldl_digits_ge) (auto dest: set_takeWhileD)
    have tw: "takeWhile is_digit (c # cs) = c # takeWhile is_digit cs" using True by simp
    have fl: "foldl ?f n (takeWhile is_digit (c # cs)) = foldl ?f n' (takeWhile is_digit cs)"
      by (simp only: tw foldl_Cons n'_def)
    have ne: "(takeWhile is_digit (c # cs) \<noteq> c # cs) = (takeWhile is_digit cs \<noteq> cs)"
      by (simp only: tw list.inject simp_thms)
    show ?thesis
    proof (cases "2 ^ 64 \<le> n'")
      case over: True
      then have "(2 ^ 64 - 1) div 10 + 1 \<le> n \<or> 2 ^ 64 \<le> n * 10 + digit c"
        by (simp add: n'_def)
      then have r: "ParseUint_loop n (c # cs) = Inl ErrRange" using True by auto
      have "2 ^ 64 \<le> foldl ?f n' (takeWhile is_digit cs)" using over ge by simp
      then have big: "2 ^ 64 \<le> foldl ?f n (takeWhile is_digit (c # cs))" by (simp only: fl)
      show ?thesis by (simp only: r big if_True)
    next
      case False
      then have lt: "n' < 2 ^ 64" by simp
      have "\<not> (2 ^ 64 - 1) div 10 + 1 \<le> n" using lt d by (simp add: n'_def)
      then have "ParseUint_loop n (c # cs) = ParseUint_loop n' cs"
        using True lt by (simp add: n'_def)
      also have "\<dots> =
        (if 2 ^ 64 \<le> foldl ?f n' (takeWhile is_digit cs) then Inl ErrRange
         else if takeWhile is_digit cs \<noteq> cs then Inl ErrSyntax
         else Inr (foldl ?f n' (takeWhile is_digit cs)))"
        using n'0 lt by (rule Cons.IH)
      finally show ?thesis by (simp only: fl ne)
    qed
  qed
qed

lemma ParseUint_shape:
  "ParseUint s =
     (if s = [] then Inl ErrSyntax
      else if 2 ^ 64 \<le> decimal (leading_digits s) then Inl ErrRange
      else if leading_digits s \<noteq> s then Inl ErrSyntax
      else Inr (decimal (leading_digits s)))"
  by (simp add: ParseUint_def ParseUint_loop_shape decimal_def leading_digits_def)

lemma Atoi_shape:
  "Atoi s =
     (if sign_stripped s = [] then (0, Some ErrSyntax)
      else if 2 ^ 64 \<le> decimal (leading_digits (sign_stripped s))
        then (if has_minus s then min_int else max_int, Some ErrRange)
      else if leading_digits (sign_stripped s) \<noteq> sign_stripped s then (0, Some ErrSyntax)
      else if \<not> has_minus s \<and> 2 ^ 63 \<le> decimal (sign_stripped s) then (max_int, Some ErrRange)
      else if has_minus s \<and> 2 ^ 63 < decimal (sign_stripped s) then (min_int, Some ErrRange)
      else (if has_minus s then - word_of_int (decimal (sign_stripped s))
            else word_of_int (decimal (sign_stripped s)), None))"
proof (cases "s = []")
  case True
  then show ?thesis by (simp add: Atoi_def sign_stripped_def)
next
  case False
  then show ?thesis
    by (simp add: Atoi_def Let_def ParseUint_shape sign_stripped_def has_minus_def)
qed

lemma sign_stripped_empty: "sign_stripped [] = []"
  by (simp add: sign_stripped_def)

lemma shape_examples:
  "sign_stripped ''abc'' = ''abc''" "leading_digits ''abc'' = []"
  "sign_stripped ''7'' = ''7''" "leading_digits ''7'' = ''7''" "decimal ''7'' = 7"
  "has_minus ''7'' = False"
  "sign_stripped ''-3'' = ''3''" "leading_digits ''3'' = ''3''" "decimal ''3'' = 3"
  "has_minus ''-3'' = True"
  "sign_stripped ''99999999999999999999x'' = ''99999999999999999999x''"
  "leading_digits ''99999999999999999999x'' = ''99999999999999999999''"
  "decimal ''99999999999999999999'' = 99999999999999999999"
  "has_minus ''99999999999999999999x'' = False"
  "decimal [] = 0"
  by code_simp+

section \<open>The claims\<close>

text \<open>
  Claim C1, as amended. For an item count \<open>n\<close> with \<open>0 \<le> n < 2 ^ 53\<close> and a page size
  \<open>perPage\<close> with \<open>0 < perPage < 2 ^ 53\<close>, the range in which \<^verbatim>\<open>float64\<close> holds every
  \<^verbatim>\<open>int\<close> exactly, \<^verbatim>\<open>NumberOfPages()\<close> of the paginator that \<^verbatim>\<open>New\<close> returns, whatever the
  requested page, is the ceiling of \<open>n / perPage\<close>; it is at least \<open>1\<close> exactly when there
  is at least one item, so it is \<open>0\<close> for \<open>n = 0\<close>.
\<close>

theorem C1_number_of_pages:
  assumes "0 \<le> sint n" and "sint n < 2 ^ 53" and "0 < sint perPage" and "sint perPage < 2 ^ 53"
  shows "sint (NumberOfPages (New n perPage page))
           = \<lceil>real_of_int (sint n) / real_of_int (sint perPage)\<rceil>
       \<and> (1 \<le> sint (NumberOfPages (New n perPage page)) \<longleftrightarrow> 1 \<le> sint n)"
proof -
  have e: "sint (NumberOfPages (New n perPage page)) = - (- sint n div sint perPage)"
    using assms by (simp add: NumberOfPages_New pages_needed_exact)
  have c: "\<lceil>real_of_int (sint n) / real_of_int (sint perPage)\<rceil> = - (- sint n div sint perPage)"
    by (rule ceiling_divide_eq_div)
  have "1 \<le> - (- sint n div sint perPage) \<longleftrightarrow> 1 \<le> sint n"
  proof
    assume "1 \<le> - (- sint n div sint perPage)"
    then have "sint n \<noteq> 0" by auto
    then show "1 \<le> sint n" using assms(1) by simp
  next
    assume "1 \<le> sint n"
    then show "1 \<le> - (- sint n div sint perPage)"
      using assms(1,3) by (intro ceiling_div_bounds(3)) simp_all
  qed
  then show ?thesis by (simp only: e c)
qed

text \<open>
  The theorem at ten items and three to a page: four pages.
\<close>

theorem C1_number_of_pages_witness:
  "sint (NumberOfPages (New 10 3 1)) = 4 \<and> 1 \<le> sint (NumberOfPages (New 10 3 1))"
  using C1_number_of_pages [of 10 3 1] by simp

text \<open>
  Claim C1 as stated asks for at least one page also when there are no items. With no
  items and one item to a page the quotient is \<open>0\<close>, and so is the number of pages.
\<close>

theorem C1_counterexample:
  "0 \<le> sint (0 :: go_int) \<and> 0 < sint (1 :: go_int) \<and> \<not> 1 \<le> sint (NumberOfPages (New 0 1 1))"
  by code_simp

text \<open>
  Claim C2 at an input where the code does not keep it: no items, five to a page and a
  requested page \<open>3\<close>. There are \<open>0\<close> pages, the requested page is larger and is set to
  the number of pages, so the current page is \<open>0\<close>, below \<open>1\<close>.
\<close>

theorem C2_failing_input:
  "0 \<le> sint (0 :: go_int) \<and> 0 < sint (5 :: go_int) \<and> 0 \<le> sint (3 :: go_int)
   \<and> sint (CurrentPage (New 0 5 3)) = 0"
  by code_simp

text \<open>
  Claim C3 at an input where the code does not keep it: no items, five to a page and a
  requested page \<open>0\<close>. The page is first set to \<open>1\<close>, and then, being larger than the
  \<open>0\<close> pages there are, to \<open>0\<close>.
\<close>

theorem C3_failing_input: "CurrentPage (New 0 5 0) = 0"
  by code_simp

text \<open>
  Claim C4, as amended. For \<open>0 \<le> n < 2 ^ 53\<close>, \<open>0 < perPage < 2 ^ 53\<close> and a requested page
  \<open>p \<noteq> 0\<close>, with \<open>totalPages\<close> the ceiling of \<open>n / perPage\<close>: a page above \<open>totalPages\<close>
  becomes \<open>totalPages\<close>, a page from \<open>1\<close> to \<open>totalPages\<close> is kept, and a negative page is
  kept.
\<close>

theorem C4_current_page_clamped:
  assumes "0 \<le> sint n" and "sint n < 2 ^ 53" and "0 < sint perPage" and "sint perPage < 2 ^ 53"
    and "page \<noteq> 0"
  shows "(\<lceil>real_of_int (sint n) / real_of_int (sint perPage)\<rceil> < sint page \<longrightarrow>
            sint (CurrentPage (New n perPage page))
              = \<lceil>real_of_int (sint n) / real_of_int (sint perPage)\<rceil>)
       \<and> (1 \<le> sint page \<and> sint page \<le> \<lceil>real_of_int (sint n) / real_of_int (sint perPage)\<rceil> \<longrightarrow>
            CurrentPage (New n perPage page) = page)
       \<and> (sint page < 0 \<longrightarrow> CurrentPage (New n perPage page) = page)"
proof -
  define T where "T = \<lceil>real_of_int (sint n) / real_of_int (sint perPage)\<rceil>"
  have c: "T = - (- sint n div sint perPage)"
    unfolding T_def by (rule ceiling_divide_eq_div)
  have e: "sint (pages_needed n perPage) = T"
    using assms(1-4) by (simp add: pages_needed_exact c)
  have T0: "0 \<le> T" unfolding c using assms(1,3) by (rule ceiling_div_bounds(1))
  have cur: "CurrentPage (New n perPage page) =
      (if T < sint page then pages_needed n perPage else page)"
    using assms(5) by (simp add: CurrentPage_New word_sless_alt e)
  have "T < sint page \<longrightarrow> sint (CurrentPage (New n perPage page)) = T"
    by (simp add: cur e)
  moreover have "1 \<le> sint page \<and> sint page \<le> T \<longrightarrow> CurrentPage (New n perPage page) = page"
    by (simp add: cur)
  moreover have "sint page < 0 \<longrightarrow> CurrentPage (New n perPage page) = page"
    using T0 by (simp add: cur)
  ultimately show ?thesis unfolding T_def by blast
qed

text \<open>
  The theorem at one input for each of its three cases: page \<open>7\<close> of five, page \<open>2\<close> of
  three, and page \<open>- 3\<close>.
\<close>

theorem C4_current_page_clamped_witness:
  "sint (CurrentPage (New 10 2 7)) = 5 \<and> CurrentPage (New 73 25 2) = 2
   \<and> CurrentPage (New 10 2 (- 3)) = - 3"
  using C4_current_page_clamped [of 10 2 7] C4_current_page_clamped [of 73 25 2]
    C4_current_page_clamped [of 10 2 "- 3"]
  by simp

text \<open>
  Claim C4 as stated, for every item count: with \<open>2 ^ 53 + 1\<close> items, one to a page, the
  requested page \<open>2 ^ 53 + 1\<close> lies between \<open>1\<close> and the ceiling of \<open>n / perPage\<close>, but
  \<^verbatim>\<open>float64(n)\<close> rounds to \<open>2 ^ 53\<close> and the page is set to that.
\<close>

theorem C4_counterexample:
  "0 \<le> sint (9007199254740993 :: go_int) \<and> 0 < sint (1 :: go_int)
   \<and> (9007199254740993 :: go_int) \<noteq> 0
   \<and> 1 \<le> sint (9007199254740993 :: go_int)
   \<and> sint (9007199254740993 :: go_int)
        \<le> \<lceil>real_of_int (sint (9007199254740993 :: go_int)) / real_of_int (sint (1 :: go_int))\<rceil>
   \<and> CurrentPage (New 9007199254740993 1 9007199254740993) \<noteq> 9007199254740993"
  by (simp add: New_beyond_exact_range)

text \<open>
  Claim C5, as amended. For \<open>0 \<le> n < 2 ^ 53\<close> and \<open>0 < perPage < 2 ^ 53\<close>, a consumer that
  ranges over \<^verbatim>\<open>PagesStream()\<close> of the paginator that \<^verbatim>\<open>New\<close> returns sees the channel closed
  after receiving the numbers \<open>1, 2, \<dots>, NumberOfPages()\<close> in this order, a list of exactly
  \<^verbatim>\<open>NumberOfPages()\<close> elements, strictly ascending. \<^verbatim>\<open>Pages()\<close> returns the same list, neither
  panicking nor running forever, when \<^verbatim>\<open>NumberOfPages()\<close> is at most \<open>2 ^ 45\<close>, the largest
  capacity that \<^verbatim>\<open>make\<close> accepts, and the \<open>8 * NumberOfPages()\<close> bytes of the list can be
  allocated.
\<close>

theorem C5_pages_and_stream:
  assumes "0 \<le> sint n" and "sint n < 2 ^ 53" and "0 < sint perPage" and "sint perPage < 2 ^ 53"
  shows "(sint (NumberOfPages (New n perPage page)) \<le> 2 ^ 45
          \<and> 8 * sint (NumberOfPages (New n perPage page)) \<le> available \<longrightarrow>
            Pages available (New n perPage page)
              = Some (Inr (map word_of_int [1..sint (NumberOfPages (New n perPage page))])))
       \<and> range_stream (New n perPage page) (PagesStream (New n perPage page)) []
           = Some (map word_of_int [1..sint (NumberOfPages (New n perPage page))])
       \<and> map sint (map word_of_int [1..sint (NumberOfPages (New n perPage page))] :: go_int list)
           = [1..sint (NumberOfPages (New n perPage page))]
       \<and> int (length (map word_of_int [1..sint (NumberOfPages (New n perPage page))] :: go_int list))
           = sint (NumberOfPages (New n perPage page))
       \<and> sorted_wrt (<s) (map word_of_int [1..sint (NumberOfPages (New n perPage page))] :: go_int list)"
proof -
  define p where "p = New n perPage page"
  define N where "N = sint (NumberOfPages p)"
  have e: "N = - (- sint n div sint perPage)"
    using assms by (simp add: N_def p_def NumberOfPages_New pages_needed_exact)
  have N0: "0 \<le> N" unfolding e using assms(1,3) by (rule ceiling_div_bounds(1))
  have "N \<le> sint n" unfolding e using assms(1,3) by (rule ceiling_div_bounds(2))
  then have N53: "N < 2 ^ 53" using assms(2) by simp
  have pages: "Pages available p = Some (Inr (map word_of_int [1..N]))"
    if "N \<le> 2 ^ 45" and "8 * N \<le> available"
  proof -
    have "makeslice available N = None" using that N0 by (simp add: makeslice_def)
    then show ?thesis
      using Pages_loop_upto [of p 1 "[]"] by (simp add: Pages_def N_def)
  qed
  have stream: "range_stream p (PagesStream p) [] = Some (map word_of_int [1..N])"
    using range_stream_upto [of p 1 "[]"] by (simp add: PagesStream_def N_def)
  have vals: "map sint (map word_of_int [1..N] :: go_int list) = [1..N]"
    using N53 by (intro map_sint_word_of_int_upto) simp_all
  have len: "int (length (map word_of_int [1..N] :: go_int list)) = N"
    using N0 by simp
  have asc: "sorted_wrt (<s) (map word_of_int [1..N] :: go_int list)"
    using N53 by (intro sorted_wrt_sless_upto) simp_all
  show ?thesis using pages stream vals len asc unfolding N_def p_def by blast
qed

text \<open>
  The theorem at ten items, three to a page, with 32 bytes to allocate: the pages
  \<open>1, 2, 3, 4\<close>, from both.
\<close>

theorem C5_pages_and_stream_witness:
  "Pages 32 (New 10 3 1) = Some (Inr [1, 2, 3, 4])
   \<and> range_stream (New 10 3 1) (PagesStream (New 10 3 1)) [] = Some [1, 2, 3, 4]"
proof -
  have N: "sint (NumberOfPages (New 10 3 1)) = 4" by code_simp
  have u: "[1..4::int] = [1, 2, 3, 4]" by code_simp
  show ?thesis using C5_pages_and_stream [of 10 3 1 32] by (simp add: N u)
qed

text \<open>
  Claim C5 as stated, for every item count. With \<open>2 ^ 46\<close> items, one to a page, there are
  \<open>2 ^ 46\<close> pages and \<^verbatim>\<open>Pages()\<close> panics in \<^verbatim>\<open>make\<close>, however much memory there is (here
  \<open>2 ^ 60\<close> bytes). With the largest \<^verbatim>\<open>int\<close> as the item count and one item to a page,
  \<^verbatim>\<open>float64(n)\<close> rounds up to \<open>2 ^ 63\<close>, which no \<^verbatim>\<open>int\<close> holds; the conversion gives the
  smallest \<^verbatim>\<open>int\<close>, \<^verbatim>\<open>Pages()\<close> panics on the negative capacity and the stream is closed at
  once, with no emission, while \<^verbatim>\<open>NumberOfPages()\<close> is not \<open>0\<close>.
\<close>

theorem C5_counterexample:
  "0 \<le> sint (70368744177664 :: go_int) \<and> 0 \<le> sint (9223372036854775807 :: go_int)
   \<and> 0 < sint (1 :: go_int)
   \<and> Pages 1152921504606846976 (New 70368744177664 1 1)
        = Some (Inl (Runtime_panic (Panic ''makeslice: cap out of range'')))
   \<and> Pages 1152921504606846976 (New 9223372036854775807 1 1)
        = Some (Inl (Runtime_panic (Panic ''makeslice: cap out of range'')))
   \<and> range_stream (New 9223372036854775807 1 1) (PagesStream (New 9223372036854775807 1 1)) []
        = Some []
   \<and> sint (NumberOfPages (New 9223372036854775807 1 1)) \<noteq> 0"
  by code_simp

text \<open>
  Claim C6. For every paginator that \<^verbatim>\<open>New\<close> returns, whatever the item count, the page
  size and the requested page, \<^verbatim>\<open>PreviousPage()\<close> is at least \<open>1\<close> and \<^verbatim>\<open>NextPage()\<close> is
  at most \<^verbatim>\<open>NumberOfPages()\<close>, in the signed order of \<^verbatim>\<open>int\<close>. Neither the decrement
  nor the increment can wrap: each is guarded by the comparison before it.
\<close>

theorem C6_adjacent_pages_bounded:
  "1 \<le>s PreviousPage (New n perPage page) \<and>
   NextPage (New n perPage page) \<le>s NumberOfPages (New n perPage page)"
proof -
  define p where "p = New n perPage page"
  have prev: "1 \<le>s PreviousPage p"
  proof (cases "CurrentPage p \<le>s 1")
    case True
    then show ?thesis by (simp add: PreviousPage_def)
  next
    case False
    then have "1 < sint (CurrentPage p)" by (simp add: word_sle_eq)
    then have "1 \<le> sint (CurrentPage p - 1)" by (simp add: sint_sub1)
    then show ?thesis using False by (simp add: PreviousPage_def word_sle_eq)
  qed
  have nxt: "NextPage p \<le>s NumberOfPages p"
  proof (cases "NumberOfPages p \<le>s CurrentPage p")
    case True
    then show ?thesis by (simp add: NextPage_def)
  next
    case False
    then have lt: "sint (CurrentPage p) < sint (NumberOfPages p)" by (simp add: word_sle_eq)
    then have "sint (CurrentPage p + 1) \<le> sint (NumberOfPages p)" by (simp add: sint_add1 [OF lt])
    then show ?thesis using False by (simp add: NextPage_def word_sle_eq)
  qed
  show ?thesis using prev nxt by (simp add: p_def)
qed

text \<open>
  Claim C7. \<^verbatim>\<open>ToPaginationWithData\<close> fails exactly when the kind of its argument is not
  \<^verbatim>\<open>reflect.Slice\<close>, the sequences of Go: a scalar, a map, a struct, the nil interface, and
  also a fixed-size array. The failure is the panic of \<^verbatim>\<open>interfaceSlice\<close>, which is not
  recovered and so reaches the caller. For a slice the result is the summary of
  \<^verbatim>\<open>ToPagination\<close> with \<^verbatim>\<open>Data\<close> set to the elements of the slice, one interface value for
  each, in order.
\<close>

theorem C7_with_data_fails_iff_not_slice:
  "((\<exists>e. ToPaginationWithData p v = Inl e) \<longleftrightarrow> Kind v \<noteq> Slice_kind)
   \<and> (Kind v \<noteq> Slice_kind \<longrightarrow>
        ToPaginationWithData p v = Inl (Panic ''interfaceSlice given a non-slice type''))
   \<and> (Kind v = Slice_kind \<longrightarrow>
        ToPaginationWithData p v = Inr ((ToPagination p)\<lparr>Data := elements v\<rparr>))"
proof (cases "Kind v = Slice_kind")
  case True
  then show ?thesis by (simp add: ToPaginationWithData_def interfaceSlice_Slice)
next
  case False
  then show ?thesis by (simp add: ToPaginationWithData_def interfaceSlice_def)
qed

text \<open>
  The theorem at a slice of two elements, at an empty map and at an integer.
\<close>

theorem C7_with_data_fails_iff_not_slice_witness:
  "ToPaginationWithData (New 10 2 0) (Slice_value [Int_value 7, String_value ''a''])
     = Inr ((ToPagination (New 10 2 0))\<lparr>Data := [Int_value 7, String_value ''a'']\<rparr>)
   \<and> ToPaginationWithData (New 10 2 0) (Map_value [])
     = Inl (Panic ''interfaceSlice given a non-slice type'')
   \<and> ToPaginationWithData (New 10 2 0) (Int_value 7)
     = Inl (Panic ''interfaceSlice given a non-slice type'')"
  using C7_with_data_fails_iff_not_slice [of "New 10 2 0" "Slice_value [Int_value 7, String_value ''a'']"]
    C7_with_data_fails_iff_not_slice [of "New 10 2 0" "Map_value []"]
    C7_with_data_fails_iff_not_slice [of "New 10 2 0" "Int_value 7"]
  by simp

text \<open>
  Claim C8, as amended. \<^verbatim>\<open>NewFromRequest(n, perPage, req)\<close> has no error result and is
  \<^verbatim>\<open>New(n, perPage, q)\<close>, where \<open>q\<close> depends on the \<^verbatim>\<open>page\<close> parameter \<open>s\<close> as follows. Let
  \<open>b\<close> be \<open>s\<close> without a leading \<^verbatim>\<open>+\<close> or \<^verbatim>\<open>-\<close>, and \<open>v\<close> the number that the leading decimal
  digits of \<open>b\<close> denote.
  \<^item> \<open>q\<close> is \<open>0\<close> when the parameter is missing, and when \<open>v < 2 ^ 64\<close> and \<open>b\<close> is empty or
    has a character that is not a decimal digit.
  \<^item> When \<open>b\<close> is a nonempty string of digits, \<open>q\<close> is \<open>v\<close>, or \<open>- v\<close> after a minus sign, if
    that fits an \<^verbatim>\<open>int\<close>, and otherwise the largest \<^verbatim>\<open>int\<close>, or the smallest after a minus
    sign.
  \<^item> When \<open>v\<close> is \<open>2 ^ 64\<close> or more, \<open>q\<close> is the largest \<^verbatim>\<open>int\<close>, or the smallest after a minus
    sign, whatever follows the digits.
\<close>

theorem C8_page_of_request:
  assumes "s = Get (Query req) ''page''" and "b = sign_stripped s"
    and "v = decimal (leading_digits b)"
  shows "(Query req ''page'' = None \<longrightarrow> NewFromRequest n perPage req = New n perPage 0)
       \<and> (v < 2 ^ 64 \<and> (b = [] \<or> leading_digits b \<noteq> b) \<longrightarrow>
            NewFromRequest n perPage req = New n perPage 0)
       \<and> (b \<noteq> [] \<and> leading_digits b = b \<and> \<not> has_minus s \<and> v < 2 ^ 63 \<longrightarrow>
            NewFromRequest n perPage req = New n perPage (word_of_int v))
       \<and> (b \<noteq> [] \<and> leading_digits b = b \<and> has_minus s \<and> v \<le> 2 ^ 63 \<longrightarrow>
            NewFromRequest n perPage req = New n perPage (word_of_int (- v)))
       \<and> (b \<noteq> [] \<and> \<not> has_minus s \<and> 2 ^ 63 \<le> v \<and> (leading_digits b = b \<or> 2 ^ 64 \<le> v) \<longrightarrow>
            NewFromRequest n perPage req = New n perPage max_int)
       \<and> (b \<noteq> [] \<and> has_minus s \<and> 2 ^ 63 < v \<and> (leading_digits b = b \<or> 2 ^ 64 \<le> v) \<longrightarrow>
            NewFromRequest n perPage req = New n perPage min_int)"
proof -
  have d: "NewFromRequest n perPage req = New n perPage (fst (Atoi s))"
    by (simp add: NewFromRequest_def Let_def assms(1))
  have shape: "Atoi s =
     (if b = [] then (0, Some ErrSyntax)
      else if 2 ^ 64 \<le> v then (if has_minus s then min_int else max_int, Some ErrRange)
      else if leading_digits b \<noteq> b then (0, Some ErrSyntax)
      else if \<not> has_minus s \<and> 2 ^ 63 \<le> decimal b then (max_int, Some ErrRange)
      else if has_minus s \<and> 2 ^ 63 < decimal b then (min_int, Some ErrRange)
      else (if has_minus s then - word_of_int (decimal b) else word_of_int (decimal b), None))"
    unfolding assms(2,3) by (rule Atoi_shape)
  have c1: "Query req ''page'' = None \<longrightarrow> NewFromRequest n perPage req = New n perPage 0"
    by (simp add: d assms(1) Get_missing Atoi_empty)
  have c2: "v < 2 ^ 64 \<and> (b = [] \<or> leading_digits b \<noteq> b) \<longrightarrow>
      NewFromRequest n perPage req = New n perPage 0"
    by (auto simp: d shape)
  have c3: "b \<noteq> [] \<and> leading_digits b = b \<and> \<not> has_minus s \<and> v < 2 ^ 63 \<longrightarrow>
      NewFromRequest n perPage req = New n perPage (word_of_int v)"
    by (auto simp: d shape assms(3))
  have c4: "b \<noteq> [] \<and> leading_digits b = b \<and> has_minus s \<and> v \<le> 2 ^ 63 \<longrightarrow>
      NewFromRequest n perPage req = New n perPage (word_of_int (- v))"
    by (auto simp: d shape assms(3))
  have c5: "b \<noteq> [] \<and> \<not> has_minus s \<and> 2 ^ 63 \<le> v \<and> (leading_digits b = b \<or> 2 ^ 64 \<le> v) \<longrightarrow>
      NewFromRequest n perPage req = New n perPage max_int"
    by (auto simp: d shape assms(3))
  have c6: "b \<noteq> [] \<and> has_minus s \<and> 2 ^ 63 < v \<and> (leading_digits b = b \<or> 2 ^ 64 \<le> v) \<longrightarrow>
      NewFromRequest n perPage req = New n perPage min_int"
    by (auto simp: d shape assms(3))
  show ?thesis using c1 c2 c3 c4 c5 c6 by blast
qed

text \<open>
  The theorem at a request without the parameter, and at the values \<^verbatim>\<open>abc\<close>, \<^verbatim>\<open>7\<close>,
  \<^verbatim>\<open>-3\<close> and \<^verbatim>\<open>99999999999999999999x\<close>, whose digits denote more than \<open>2 ^ 64\<close>.
\<close>

theorem C8_page_of_request_witness:
  "NewFromRequest 10 2 \<lparr>Query = Map.empty\<rparr> = New 10 2 0
   \<and> NewFromRequest 10 2 \<lparr>Query = [''page'' \<mapsto> [''abc'']]\<rparr> = New 10 2 0
   \<and> NewFromRequest 10 2 \<lparr>Query = [''page'' \<mapsto> [''7'']]\<rparr> = New 10 2 7
   \<and> NewFromRequest 10 2 \<lparr>Query = [''page'' \<mapsto> [''-3'']]\<rparr> = New 10 2 (- 3)
   \<and> NewFromRequest 10 2 \<lparr>Query = [''page'' \<mapsto> [''99999999999999999999x'']]\<rparr>
       = New 10 2 max_int"
  using C8_page_of_request [OF refl refl refl, of "\<lparr>Query = Map.empty\<rparr>" 10 2]
    C8_page_of_request [OF refl refl refl, of "\<lparr>Query = [''page'' \<mapsto> [''abc'']]\<rparr>" 10 2]
    C8_page_of_request [OF refl refl refl, of "\<lparr>Query = [''page'' \<mapsto> [''7'']]\<rparr>" 10 2]
    C8_page_of_request [OF refl refl refl, of "\<lparr>Query = [''page'' \<mapsto> [''-3'']]\<rparr>" 10 2]
    C8_page_of_request [OF refl refl refl,
      of "\<lparr>Query = [''page'' \<mapsto> [''99999999999999999999x'']]\<rparr>" 10 2]
  by (simp add: Get_def shape_examples)

text \<open>
  Claim C8 as stated takes \<open>q\<close> to be \<open>0\<close> whenever the parameter fails to parse. The value
  \<^verbatim>\<open>9223372036854775808\<close> fails to parse, with a range error, and \<open>q\<close> is the largest
  \<^verbatim>\<open>int\<close>: of ten items, two to a page, the request gets page \<open>5\<close>, the last one, where
  \<^verbatim>\<open>New(10, 2, 0)\<close> is on page \<open>1\<close>.
\<close>

theorem C8_counterexample:
  "snd (Atoi ''9223372036854775808'') = Some ErrRange
   \<and> fst (Atoi ''9223372036854775808'') \<noteq> 0
   \<and> CurrentPage (NewFromRequest 10 2 \<lparr>Query = [''page'' \<mapsto> [''9223372036854775808'']]\<rparr>) = 5
   \<and> CurrentPage (New 10 2 0) = 1"
  by (simp add: NewFromRequest_def Get_def Atoi_examples max_int_not_zero New_examples)

text \<open>
  Claim C9, as amended. For every paginator, the producer of \<^verbatim>\<open>PagesStream()\<close> has exited
  after the consumer has received \<open>k\<close> values if and only if \<open>k\<close> is at least
  \<^verbatim>\<open>NumberOfPages()\<close>. A consumer that stops after fewer values, having received
  \<open>1, \<dots>, k\<close>, leaves the producer blocked in the send of \<open>k + 1\<close>; nothing but a receive
  moves it from there, and there is no way to cancel it.
\<close>

theorem C9_producer_exits_iff_drained:
  "(snd (receive_times p k (PagesStream p)) = Exited \<longleftrightarrow> sint (NumberOfPages p) \<le> int k)
   \<and> (int k < sint (NumberOfPages p) \<longrightarrow>
        receive_times p k (PagesStream p)
          = (map word_of_int [1..int k], Blocked_sending (word_of_int (int k + 1))))"
proof -
  have blocked: "receive_times p k (PagesStream p)
      = (map word_of_int [1..int k], Blocked_sending (word_of_int (int k + 1)))"
    if "int k < sint (NumberOfPages p)"
    using that receive_times_blocked [of 1 k p] by (simp add: PagesStream_def add.commute)
  have exited: "snd (receive_times p k (PagesStream p)) = Exited"
    if "sint (NumberOfPages p) \<le> int k"
    using that receive_times_exited [of p 1 k] by (simp add: PagesStream_def)
  show ?thesis
  proof (cases "int k < sint (NumberOfPages p)")
    case True
    then show ?thesis using blocked by simp
  next
    case False
    then show ?thesis using exited by simp
  qed
qed

text \<open>
  The theorem at ten items, two to a page: after five receives the producer has exited,
  after two it is blocked sending \<open>3\<close>.
\<close>

theorem C9_producer_exits_iff_drained_witness:
  "snd (receive_times (New 10 2 1) 5 (PagesStream (New 10 2 1))) = Exited
   \<and> receive_times (New 10 2 1) 2 (PagesStream (New 10 2 1)) = ([1, 2], Blocked_sending 3)"
proof -
  have N: "sint (NumberOfPages (New 10 2 1)) = 5" by code_simp
  have u: "[1..2::int] = [1, 2]" by code_simp
  show ?thesis
    using C9_producer_exits_iff_drained [of "New 10 2 1" 5]
      C9_producer_exits_iff_drained [of "New 10 2 1" 2]
    by (simp add: N u)
qed

text \<open>
  Claim C9 as stated has the producer end also when the consumer stops early. Of five
  pages a consumer takes two and stops: the producer is blocked sending \<open>3\<close> and has not
  exited.
\<close>

theorem C9_counterexample:
  "receive_times (New 10 2 1) 2 (PagesStream (New 10 2 1)) = ([1, 2], Blocked_sending 3)
   \<and> snd (receive_times (New 10 2 1) 2 (PagesStream (New 10 2 1))) \<noteq> Exited"
  by code_simp

text \<open>
  Claim C10, as amended. For \<open>0 \<le> n < 2 ^ 53\<close>, \<open>0 < perPage < 2 ^ 53\<close> and a negative
  requested page \<open>p\<close> for which the product \<open>(p - 1) * perPage\<close> is not below the smallest
  \<^verbatim>\<open>int\<close>, \<^verbatim>\<open>New\<close> keeps \<open>p\<close> as the current page, and \<^verbatim>\<open>Offset()\<close> is
  \<open>(p - 1) * perPage\<close>, a negative number.
\<close>

theorem C10_negative_page_kept:
  assumes "0 \<le> sint n" and "sint n < 2 ^ 53" and "0 < sint perPage" and "sint perPage < 2 ^ 53"
    and "sint page < 0" and "- (2 ^ 63) \<le> (sint page - 1) * sint perPage"
  shows "CurrentPage (New n perPage page) = page
       \<and> sint (Offset (New n perPage page)) = (sint page - 1) * sint perPage
       \<and> sint (Offset (New n perPage page)) < 0"
proof -
  have T0: "0 \<le> sint (pages_needed n perPage)"
    using assms(1-4) ceiling_div_bounds(1) [of "sint n" "sint perPage"]
    by (simp add: pages_needed_exact)
  have p0: "page \<noteq> 0" using assms(5) by auto
  have cur: "CurrentPage (New n perPage page) = page"
    using T0 assms(5) p0 by (simp add: CurrentPage_New word_sless_alt)
  have neg: "(sint page - 1) * sint perPage < 0"
    using assms(3,5) by (simp add: mult_less_0_iff)
  have "(sint page - 1) * sint perPage \<le> (sint page - 1) * 1"
    using assms(3,5) by (intro mult_left_mono_neg) simp_all
  then have lo: "- (2 ^ 63) \<le> sint page - 1" using assms(6) by simp
  have "signed_take_bit 63 (sint page - 1) = sint page - 1"
    using lo assms(5) by (intro signed_take_bit_int_eq_self) simp_all
  then have s1: "sint (page - 1) = sint page - 1" by (simp add: sint_word_ariths)
  have fits: "signed_take_bit 63 ((sint page - 1) * sint perPage) = (sint page - 1) * sint perPage"
    using assms(6) neg by (intro signed_take_bit_int_eq_self) simp_all
  have "sint ((page - 1) * perPage)
      = signed_take_bit (LENGTH(64) - 1) (sint (page - 1) * sint perPage)"
    by (rule sint_word_ariths)
  also have "\<dots> = signed_take_bit 63 ((sint page - 1) * sint perPage)"
    by (simp only: s1) simp
  finally have "sint ((page - 1) * perPage) = (sint page - 1) * sint perPage"
    by (simp only: fits)
  then have off: "sint (Offset (New n perPage page)) = (sint page - 1) * sint perPage"
    by (simp add: Offset_def cur) (simp add: ItemsPerPage_def New_def Let_def)
  show ?thesis using cur off neg by simp
qed

text \<open>
  The theorem at ten items, three to a page, page \<open>- 2\<close>: the offset is \<open>- 9\<close>.
\<close>

theorem C10_negative_page_kept_witness:
  "CurrentPage (New 10 3 (- 2)) = - 2 \<and> sint (Offset (New 10 3 (- 2))) = - 9"
  using C10_negative_page_kept [of 10 3 "- 2"] by simp

text \<open>
  Claim C10 as stated, for every negative page and every page size: with \<open>2 ^ 62\<close> items
  to a page and page \<open>- 2\<close> the product \<open>- 3 * 2 ^ 62\<close> wraps around to \<open>2 ^ 62\<close>, and the
  offset is positive.
\<close>

theorem C10_counterexample:
  "0 \<le> sint (0 :: go_int) \<and> 0 < sint (4611686018427387904 :: go_int) \<and> sint (- 2 :: go_int) < 0
   \<and> \<not> sint (Offset (New 0 4611686018427387904 (- 2))) < 0"
  by code_simp

end
